theory Spec2Isabelle
  imports Main
begin

section \<open>Data model (server/router.ts)\<close>

datatype status = Streaming | Done | Error

datatype role = User | Assistant

text \<open>The \<^verbatim>\<open>Message\<close> object of the router. The field \<^verbatim>\<open>id\<close> is written
  \<open>id_msg\<close> here, the numeric \<^verbatim>\<open>createdAt\<close> is a natural number.\<close>

record Message =
  id_msg :: string
  content :: string
  role :: role
  createdAt :: nat
  status :: status

text \<open>The \<^verbatim>\<open>StreamChunk\<close> yielded to the client; its fields \<^verbatim>\<open>status\<close> and
  \<^verbatim>\<open>text\<close> are \<open>status_c\<close> and \<open>text_c\<close>.\<close>

record StreamChunk =
  messageId :: string
  status_c :: status
  text_c :: string

section \<open>Strings\<close>

text \<open>\<^verbatim>\<open>s.split(` `)\<close> of JavaScript: the pieces between single space characters,
  empty pieces included; the empty string gives one empty piece.\<close>

fun split_space :: "string \<Rightarrow> string list" where
  "split_space [] = [[]]"
| "split_space (c # cs) =
     (if c = CHR '' '' then [] # split_space cs
      else (case split_space cs of
              [] \<Rightarrow> [[c]]
            | w # ws \<Rightarrow> (c # w) # ws))"

text \<open>\<^verbatim>\<open>s.split(` `).filter(Boolean)\<close>: the empty string is the only falsy string.\<close>

definition wordsOf :: "string \<Rightarrow> string list" where
  "wordsOf s = filter (\<lambda>w. w \<noteq> []) (split_space s)"

text \<open>\<^verbatim>\<open>content + (content ? ` ` : ``) + word\<close>, the new value of
  \<^verbatim>\<open>message.content\<close> in consumeStream.\<close>

definition appendWord :: "string \<Rightarrow> string \<Rightarrow> string" where
  "appendWord c word = c @ (if c \<noteq> [] then '' '' else []) @ word"

section \<open>Streams\<close>

text \<open>A branch of the tee'd \<^verbatim>\<open>ReadableStream<string>\<close>, as its reader sees it: the chunks
  still to be read, and whether the stream is then closed or errored.\<close>

datatype stream_end = Closed | Errored

type_synonym rstream = "string list \<times> stream_end"

text \<open>\<^verbatim>\<open>stream.tee()\<close>: both branches carry every chunk, in the same order, and end
  the same way. When the source errors, both branches are errored and their queues are
  reset, so the chunks buffered for a reader and not yet read are lost. The background
  consumer always has a read pending and its branch, the first, buffers nothing; the second
  branch is read at the pace of the client, and of an erroring source it delivers only the
  chunks its reader has read when the source fails, \<open>read2\<close> of them, before its read is
  rejected.\<close>

definition tee :: "rstream \<Rightarrow> nat \<Rightarrow> rstream \<times> rstream" where
  "tee stream read2 =
     (case stream of
        (chunks, Closed) \<Rightarrow> (stream, stream)
      | (chunks, Errored) \<Rightarrow> (stream, (take read2 chunks, Errored)))"

section \<open>consumeStream: the background consumer\<close>

text \<open>The loop of consumeStream run to its end: every chunk read is appended to
  \<^verbatim>\<open>message.content\<close>; \<^verbatim>\<open>done\<close> leaves the loop and sets the status to
  \<^verbatim>\<open>done\<close>; a rejected read is caught and sets the status to \<^verbatim>\<open>error\<close>.\<close>

fun consumeStream :: "rstream \<Rightarrow> Message \<Rightarrow> Message" where
  "consumeStream ([], Closed) message = message\<lparr>status := Done\<rparr>"
| "consumeStream ([], Errored) message = message\<lparr>status := Error\<rparr>"
| "consumeStream (word # rest, e) message =
     consumeStream (rest, e) (message\<lparr>content := appendWord (content message) word\<rparr>)"

text \<open>A stored \<^verbatim>\<open>Message\<close> object together with the background consumer that
  mutates it in place: \<open>writer\<close> is the part of the consumer's branch still to be read,
  or \<open>None\<close> when no consumer is running on this object (none was started, or it has left
  its loop).\<close>

record msg_obj =
  msg :: Message
  writer :: "rstream option"

text \<open>One turn of the consumer's loop, from one \<^verbatim>\<open>await reader.read()\<close> to the
  next: the code between two awaits runs without interruption.\<close>

definition persistStep :: "msg_obj \<Rightarrow> msg_obj" where
  "persistStep p =
     (case writer p of
        None \<Rightarrow> p
      | Some (word # rest, e) \<Rightarrow>
          p\<lparr>msg := (msg p)\<lparr>content := appendWord (content (msg p)) word\<rparr>,
            writer := Some (rest, e)\<rparr>
      | Some ([], Closed) \<Rightarrow> p\<lparr>msg := (msg p)\<lparr>status := Done\<rparr>, writer := None\<rparr>
      | Some ([], Errored) \<Rightarrow> p\<lparr>msg := (msg p)\<lparr>status := Error\<rparr>, writer := None\<rparr>)"

definition persistSteps :: "nat \<Rightarrow> msg_obj \<Rightarrow> msg_obj" where
  "persistSteps n p = (persistStep ^^ n) p"

section \<open>convertReadableStreamToAsyncIterable: the generator feeding the client\<close>

datatype gen_end = Returned | Threw

text \<open>The generator drained by its consumer: the chunks it yields and how it ends. A
  rejected read is not caught (the \<^verbatim>\<open>try\<close> has only a \<^verbatim>\<open>finally\<close>), so the
  generator throws.\<close>

fun convertReadableStreamToAsyncIterable :: "rstream \<Rightarrow> string \<Rightarrow> StreamChunk list \<times> gen_end" where
  "convertReadableStreamToAsyncIterable ([], Closed) mid =
     ([\<lparr>messageId = mid, status_c = Done, text_c = []\<rparr>], Returned)"
| "convertReadableStreamToAsyncIterable ([], Errored) mid = ([], Threw)"
| "convertReadableStreamToAsyncIterable (word # rest, e) mid =
     (case convertReadableStreamToAsyncIterable (rest, e) mid of
        (cs, r) \<Rightarrow> (\<lparr>messageId = mid, status_c = Streaming, text_c = word\<rparr> # cs, r))"

text \<open>The same generator as a state machine, for runs interleaved with the background
  consumer: \<open>Running\<close> until it returns, throws, or is closed by the aborted call.\<close>

datatype gen_state = Running | Finished gen_end | Aborted

record relay =
  source :: rstream
  target :: string
  yielded :: "StreamChunk list"
  gen :: gen_state

definition relayStep :: "relay \<Rightarrow> relay" where
  "relayStep r =
     (if gen r \<noteq> Running then r
      else (case source r of
              (word # rest, e) \<Rightarrow>
                r\<lparr>source := (rest, e),
                  yielded := yielded r @ [\<lparr>messageId = target r, status_c = Streaming, text_c = word\<rparr>]\<rparr>
            | ([], Closed) \<Rightarrow>
                r\<lparr>yielded := yielded r @ [\<lparr>messageId = target r, status_c = Done, text_c = []\<rparr>],
                  gen := Finished Returned\<rparr>
            | ([], Errored) \<Rightarrow> r\<lparr>gen := Finished Threw\<rparr>))"

text \<open>The client aborts the call: the suspended generator is closed, its \<^verbatim>\<open>finally\<close>
  releases the reader's lock, and it yields nothing more.\<close>

definition relayAbort :: "relay \<Rightarrow> relay" where
  "relayAbort r = (if gen r = Running then r\<lparr>gen := Aborted\<rparr> else r)"

section \<open>pollMessage and resumeMessage\<close>

text \<open>The \<^verbatim>\<open>for\<close> loop of pollMessage. The generator is suspended at each
  \<^verbatim>\<open>yield\<close>; while it is, the background consumer of the message runs \<open>sched t\<close>
  turns of its loop, \<open>t\<close> counting the suspensions of the call. The index \<open>i\<close> of the
  yielded word is recorded beside the chunk.\<close>

function yieldWords ::
  "string list \<Rightarrow> nat \<Rightarrow> (nat \<Rightarrow> nat) \<Rightarrow> nat \<Rightarrow> msg_obj \<Rightarrow> (nat \<times> StreamChunk) list \<times> nat \<times> msg_obj" where
  "yieldWords words i sched t p =
     (if i < length words then
        (case yieldWords words (Suc i) sched (Suc t) (persistSteps (sched t) p) of
           (cs, t', p') \<Rightarrow>
             ((i, \<lparr>messageId = id_msg (msg p), status_c = Streaming, text_c = words ! i\<rparr>) # cs, t', p'))
      else ([], t, p))"
  by pat_completeness auto
termination
  by (relation "measure (\<lambda>(words, i, sched, t, p). length words - i)") auto

declare yieldWords.simps [simp del]

text \<open>The \<^verbatim>\<open>while (true)\<close> loop of pollMessage, \<open>fuel\<close> bounding the number of polls.
  The result is the indexed word chunks yielded, and the terminal chunk; \<open>None\<close> there
  means that the loop was still polling when the fuel ran out.\<close>

fun pollMessage ::
  "nat \<Rightarrow> (nat \<Rightarrow> nat) \<Rightarrow> nat \<Rightarrow> msg_obj \<Rightarrow> nat \<Rightarrow> (nat \<times> StreamChunk) list \<times> StreamChunk option" where
  "pollMessage 0 sched t p lastWordCount = ([], None)"
| "pollMessage (Suc fuel) sched t p lastWordCount =
     (let words = wordsOf (content (msg p)) in
      case yieldWords words lastWordCount sched t p of
        (cs, t', p') \<Rightarrow>
          if status (msg p') = Done then
            (cs, Some \<lparr>messageId = id_msg (msg p'), status_c = Done, text_c = []\<rparr>)
          else if status (msg p') = Error then
            (cs, Some \<lparr>messageId = id_msg (msg p'), status_c = Error, text_c = []\<rparr>)
          else
            (case pollMessage fuel sched (Suc t') (persistSteps (sched t') p') (length words) of
               (cs', fin) \<Rightarrow> (cs @ cs', fin)))"

text \<open>The chunks of a call in the order the client receives them.\<close>

definition chunksOf :: "(nat \<times> StreamChunk) list \<times> StreamChunk option \<Rightarrow> StreamChunk list" where
  "chunksOf r = map snd (fst r) @ (case snd r of None \<Rightarrow> [] | Some c \<Rightarrow> [c])"

datatype error = NotFound

definition startWordCount :: "string \<Rightarrow> nat" where
  "startWordCount c = length (wordsOf c)"

definition resumeMessage ::
  "msg_obj list \<Rightarrow> Message \<Rightarrow> nat \<Rightarrow> (nat \<Rightarrow> nat) \<Rightarrow> error + (nat \<times> StreamChunk) list \<times> StreamChunk option" where
  "resumeMessage messages input fuel sched =
     (case find (\<lambda>m. id_msg (msg m) = id_msg input) messages of
        None \<Rightarrow> Inl NotFound
      | Some message \<Rightarrow> Inr (pollMessage fuel sched 0 message (startWordCount (content input))))"

section \<open>generateId (shared/utils.ts)\<close>

text \<open>\<^verbatim>\<open>Math.random().toString(36)\<close> is an input of the model, \<open>rnd36\<close>: the text of
  the random draw in base 36. \<^verbatim>\<open>substring(2, 15)\<close> keeps the characters at positions
  2 to 14. An absent prefix and the empty prefix are both falsy.\<close>

definition generateId :: "string option \<Rightarrow> string \<Rightarrow> string" where
  "generateId prefix rnd36 =
     (let ident = take 13 (drop 2 rnd36) in
      case prefix of
        None \<Rightarrow> ident
      | Some pre \<Rightarrow> if pre \<noteq> [] then pre @ ''-'' @ ident else ident)"

section \<open>completion and sendMessage\<close>

definition responses :: "string list" where
  "responses =
     [''This is a very long message that will take a while to stream so we can test the interrupt and resume functionality properly and see if everything works as expected'']"

text \<open>The simulated LLM stream: the words of the only response, then the stream is
  closed. The delays between the words are left out.\<close>

definition completion :: rstream where
  "completion = (split_space (responses ! 0), Closed)"

text \<open>sendMessage up to the first suspension of its generator: the user message is stored
  as it came, the assistant placeholder is stored, the stream is split, the background
  consumer is started on the first branch, and the generator reads from the second. The
  chunk stream is a parameter, so that the statements cover every source and not only
  \<open>completion\<close>; \<open>now\<close> is \<^verbatim>\<open>Date.now()\<close>, and \<open>read2\<close> is the number of chunks that
  the generator of this call has read if and when the source fails.\<close>

definition sendMessage ::
  "msg_obj list \<Rightarrow> Message \<Rightarrow> string \<Rightarrow> nat \<Rightarrow> rstream \<Rightarrow> nat \<Rightarrow> msg_obj list \<times> relay" where
  "sendMessage messages input rnd36 now stream read2 =
     (let assistantMessage =
            \<lparr>id_msg = generateId (Some ''assistant'') rnd36, content = [], role = Assistant,
             createdAt = now, status = Streaming\<rparr>;
          (stream1, stream2) = tee stream read2
      in (messages @ [\<lparr>msg = input, writer = None\<rparr>,
                      \<lparr>msg = assistantMessage, writer = Some stream1\<rparr>],
          \<lparr>source = stream2, target = id_msg assistantMessage, yielded = [], gen = Running\<rparr>))"

text \<open>What can happen next, in any order: the background consumer of the stored object
  \<open>i\<close> takes a turn, the generator of the call is asked for its next chunk, or the client
  aborts the call.\<close>

datatype event = Consume nat | Pull | Abort

fun step :: "msg_obj list \<times> relay \<Rightarrow> event \<Rightarrow> msg_obj list \<times> relay" where
  "step (ms, r) (Consume i) = (if i < length ms then ms[i := persistStep (ms ! i)] else ms, r)"
| "step (ms, r) Pull = (ms, relayStep r)"
| "step (ms, r) Abort = (ms, relayAbort r)"

definition run :: "event list \<Rightarrow> msg_obj list \<times> relay \<Rightarrow> msg_obj list \<times> relay" where
  "run evs s = foldl step s evs"

text \<open>The number of turns that a schedule gives the background consumer during the \<open>k\<close>
  suspensions of a call that follow the first \<open>t\<close>.\<close>

fun turns :: "(nat \<Rightarrow> nat) \<Rightarrow> nat \<Rightarrow> nat \<Rightarrow> nat" where
  "turns sched t 0 = 0"
| "turns sched t (Suc k) = sched t + turns sched (Suc t) k"

section \<open>Counting words as the specification words it\<close>

text \<open>The specification counts whitespace-delimited words. \<open>countWords delim inWord s\<close>
  counts the maximal runs of characters that are not delimiters; \<open>inWord\<close> says that a
  run is open at the start of \<open>s\<close>.\<close>

definition isWhitespace :: "char \<Rightarrow> bool" where
  "isWhitespace c = (c \<in> {CHR '' '', CHR 0x09, CHR 0x0A, CHR 0x0B, CHR 0x0C, CHR 0x0D})"

fun countWords :: "(char \<Rightarrow> bool) \<Rightarrow> bool \<Rightarrow> string \<Rightarrow> nat" where
  "countWords delim inWord [] = 0"
| "countWords delim inWord (c # cs) =
     (if delim c then countWords delim False cs
      else (if inWord then 0 else 1) + countWords delim True cs)"

definition whitespaceWordCount :: "string \<Rightarrow> nat" where
  "whitespaceWordCount s = countWords isWhitespace False s"

text \<open>A chunk as the glossary has it, under the splitting rule of the code: a word, not
  empty and without a space.\<close>

definition isWord :: "string \<Rightarrow> bool" where
  "isWord w = (w \<noteq> [] \<and> CHR '' '' \<notin> set w)"

section \<open>Splitting and joining\<close>

lemma split_space_not_Nil: "split_space s \<noteq> []"
  by (induction s) (auto split: list.splits)

lemma split_space_append: "split_space (a @ CHR '' '' # b) = split_space a @ split_space b"
  by (induction a) (auto split: list.splits simp: split_space_not_Nil)

lemma split_space_no_space: "CHR '' '' \<notin> set w \<Longrightarrow> split_space w = [w]"
  by (induction w) auto

lemma split_space_pieces: "w \<in> set (split_space s) \<Longrightarrow> CHR '' '' \<notin> set w"
  by (induction s arbitrary: w) (auto split: if_splits list.splits)

lemma wordsOf_Nil: "wordsOf [] = []"
  by (simp add: wordsOf_def)

lemma wordsOf_appendWord: "wordsOf (appendWord c w) = wordsOf c @ wordsOf w"
  by (simp add: appendWord_def wordsOf_def split_space_append)

lemma wordsOf_word: "isWord w \<Longrightarrow> wordsOf w = [w]"
  by (simp add: wordsOf_def isWord_def split_space_no_space)

lemma wordsOf_foldl: "wordsOf (foldl appendWord c ws) = wordsOf c @ concat (map wordsOf ws)"
  by (induction ws arbitrary: c) (simp_all add: wordsOf_appendWord)

lemma concat_wordsOf_words: "list_all isWord ws \<Longrightarrow> concat (map wordsOf ws) = ws"
  by (induction ws) (simp_all add: wordsOf_word)

lemma wordsOf_pieces: "w \<in> set (wordsOf s) \<Longrightarrow> isWord w"
  by (auto simp: wordsOf_def isWord_def dest: split_space_pieces)

lemma wordsOf_join: "list_all isWord ws \<Longrightarrow> wordsOf (foldl appendWord [] ws) = ws"
  by (simp add: wordsOf_foldl concat_wordsOf_words wordsOf_Nil)

lemma wordsOf_join_only_words:
  assumes "wordsOf (foldl appendWord [] ws) = ws"
  shows "list_all isWord ws"
proof -
  have "\<forall>w\<in>set (wordsOf (foldl appendWord [] ws)). isWord w"
    using wordsOf_pieces by blast
  with assms show ?thesis by (simp add: list_all_iff)
qed

section \<open>The background consumer\<close>

lemma content_consumeStream: "content (consumeStream (ws, e) m) = foldl appendWord (content m) ws"
  by (induction ws arbitrary: m) (cases e; simp)+

lemma status_consumeStream:
  "status (consumeStream (ws, e) m) = (case e of Closed \<Rightarrow> Done | Errored \<Rightarrow> Error)"
  by (induction ws arbitrary: m) (cases e; simp)+

lemma id_consumeStream: "id_msg (consumeStream (ws, e) m) = id_msg m"
  by (induction ws arbitrary: m) (cases e; simp)+

lemma completion_words: "list_all isWord (fst completion)"
  by (simp add: completion_def responses_def isWord_def)

text \<open>Claim C3. Whatever chunks its branch delivers, consumeStream appends them to the
  content of the message in the order of the source, each after a single space exactly when
  the content is not empty; a branch that closes leaves the status \<^verbatim>\<open>done\<close>, a branch
  whose read fails leaves the status \<^verbatim>\<open>error\<close> with the chunks read before the
  failure, and nothing more. When the chunks are words and the content started empty,
  splitting the persisted content gives back the chunks of the source, in order; the chunks
  of \<open>completion\<close>, the source of the code, are words.\<close>

theorem consumeStream_persists_in_order:
  "content (consumeStream (chunks, e) message) = foldl appendWord (content message) chunks
   \<and> appendWord c word = (if c = [] then word else c @ '' '' @ word)
   \<and> status (consumeStream (chunks, Closed) message) = Done
   \<and> status (consumeStream (chunks, Errored) message) = Error
   \<and> (list_all isWord chunks \<and> content message = [] \<longrightarrow>
        wordsOf (content (consumeStream (chunks, e) message)) = chunks)
   \<and> (content message = [] \<longrightarrow>
        wordsOf (content (consumeStream completion message)) = fst completion
        \<and> status (consumeStream completion message) = Done)"
proof -
  have c: "completion = (fst completion, Closed)"
    by (simp add: completion_def)
  have "wordsOf (content (consumeStream completion message)) = fst completion
        \<and> status (consumeStream completion message) = Done" if "content message = []"
    using that completion_words
    by (subst (1 3) c) (simp add: content_consumeStream status_consumeStream wordsOf_join)
  then show ?thesis
    by (simp add: content_consumeStream status_consumeStream wordsOf_join appendWord_def)
qed

theorem consumeStream_persists_in_order_witness:
  "list_all isWord [''a'', ''b'', ''c'']
   \<and> content (consumeStream ([''a'', ''b'', ''c''], Closed)
        \<lparr>id_msg = ''assistant-1'', content = [], role = Assistant, createdAt = 0, status = Streaming\<rparr>)
       = ''a b c''
   \<and> status (consumeStream ([''a'', ''b'', ''c''], Closed)
        \<lparr>id_msg = ''assistant-1'', content = [], role = Assistant, createdAt = 0, status = Streaming\<rparr>)
       = Done
   \<and> wordsOf (content (consumeStream ([''a'', ''b'', ''c''], Closed)
        \<lparr>id_msg = ''assistant-1'', content = [], role = Assistant, createdAt = 0, status = Streaming\<rparr>))
       = [''a'', ''b'', ''c'']"
  using consumeStream_persists_in_order [of "[''a'', ''b'', ''c'']" Closed
    "\<lparr>id_msg = ''assistant-1'', content = [], role = Assistant, createdAt = 0, status = Streaming\<rparr>"]
  by (simp add: isWord_def appendWord_def)

text \<open>Claim C10. Persisting a list of chunks into an empty content and splitting the
  result as pollMessage does gives back the list exactly when every chunk is a word, not
  empty and without a space; for such chunks the word count of resumeMessage is the number
  of chunks persisted.\<close>

theorem persist_split_roundtrip:
  "(wordsOf (content (consumeStream (chunks, e) (message\<lparr>content := []\<rparr>))) = chunks)
     = list_all isWord chunks
   \<and> (list_all isWord chunks \<longrightarrow>
        startWordCount (content (consumeStream (chunks, e) (message\<lparr>content := []\<rparr>)))
          = length chunks)"
proof -
  have c: "content (consumeStream (chunks, e) (message\<lparr>content := []\<rparr>)) = foldl appendWord [] chunks"
    by (simp add: content_consumeStream)
  show ?thesis
    unfolding c startWordCount_def
    using wordsOf_join [of chunks] wordsOf_join_only_words [of chunks] by auto
qed

theorem persist_split_roundtrip_witness:
  "list_all isWord [''This'', ''is'', ''a'', ''message'']
   \<and> wordsOf (content (consumeStream ([''This'', ''is'', ''a'', ''message''], Closed)
        (\<lparr>id_msg = ''assistant-1'', content = ''x'', role = Assistant, createdAt = 0,
          status = Streaming\<rparr>\<lparr>content := []\<rparr>)))
       = [''This'', ''is'', ''a'', ''message'']
   \<and> startWordCount (content (consumeStream ([''This'', ''is'', ''a'', ''message''], Closed)
        (\<lparr>id_msg = ''assistant-1'', content = ''x'', role = Assistant, createdAt = 0,
          status = Streaming\<rparr>\<lparr>content := []\<rparr>))) = 4"
  using persist_split_roundtrip [of "[''This'', ''is'', ''a'', ''message'']" Closed
    "\<lparr>id_msg = ''assistant-1'', content = ''x'', role = Assistant, createdAt = 0, status = Streaming\<rparr>"]
  by (simp add: isWord_def)

section \<open>The generator feeding the client\<close>

lemma convert_Closed:
  "convertReadableStreamToAsyncIterable (chunks, Closed) mid =
     (map (\<lambda>w. \<lparr>messageId = mid, status_c = Streaming, text_c = w\<rparr>) chunks
        @ [\<lparr>messageId = mid, status_c = Done, text_c = []\<rparr>], Returned)"
  by (induction chunks) simp_all

lemma convert_Errored:
  "convertReadableStreamToAsyncIterable (chunks, Errored) mid =
     (map (\<lambda>w. \<lparr>messageId = mid, status_c = Streaming, text_c = w\<rparr>) chunks, Threw)"
  by (induction chunks) simp_all

lemma relayStep_not_Running: "gen r \<noteq> Running \<Longrightarrow> (relayStep ^^ n) r = r"
  by (induction n) (simp_all add: relayStep_def)

lemma relaySteps_complete:
  "gen r = Running \<Longrightarrow> source r = (ws, e) \<Longrightarrow> length ws < n \<Longrightarrow>
   (relayStep ^^ n) r =
     r\<lparr>source := ([], e),
       yielded := yielded r @ fst (convertReadableStreamToAsyncIterable (ws, e) (target r)),
       gen := Finished (snd (convertReadableStreamToAsyncIterable (ws, e) (target r)))\<rparr>"
proof (induction ws arbitrary: r n)
  case Nil
  then obtain k where n: "n = Suc k" by (cases n) auto
  have "relayStep r = r\<lparr>source := ([], e),
       yielded := yielded r @ fst (convertReadableStreamToAsyncIterable ([], e) (target r)),
       gen := Finished (snd (convertReadableStreamToAsyncIterable ([], e) (target r)))\<rparr>"
    using Nil by (cases e) (simp_all add: relayStep_def)
  then show ?case using n
    by (simp add: funpow_swap1 relayStep_not_Running)
next
  case (Cons w ws)
  then obtain k where n: "n = Suc k" by (cases n) auto
  let ?r = "r\<lparr>source := (ws, e),
                  yielded := yielded r @ [\<lparr>messageId = target r, status_c = Streaming, text_c = w\<rparr>]\<rparr>"
  have s: "relayStep r = ?r" using Cons.prems by (simp add: relayStep_def)
  have "(relayStep ^^ k) ?r = ?r\<lparr>source := ([], e),
       yielded := yielded ?r @ fst (convertReadableStreamToAsyncIterable (ws, e) (target ?r)),
       gen := Finished (snd (convertReadableStreamToAsyncIterable (ws, e) (target ?r)))\<rparr>"
    using Cons.prems n by (intro Cons.IH) simp_all
  then show ?case using n s by (simp add: funpow_swap1 split: prod.splits)
qed

lemma tee_fst: "fst (tee stream read2) = stream"
  by (auto simp: tee_def split: prod.splits stream_end.splits)

lemma tee_Closed: "snd (tee (chunks, Closed) read2) = (chunks, Closed)"
  by (simp add: tee_def)

lemma tee_Errored: "snd (tee (chunks, Errored) read2) = (take read2 chunks, Errored)"
  by (simp add: tee_def)

lemma sendMessage_eq:
  "sendMessage messages input rnd36 now stream read2 =
     (messages @ [\<lparr>msg = input, writer = None\<rparr>,
                  \<lparr>msg = \<lparr>id_msg = generateId (Some ''assistant'') rnd36, content = [],
                           role = Assistant, createdAt = now, status = Streaming\<rparr>,
                    writer = Some stream\<rparr>],
      \<lparr>source = snd (tee stream read2), target = generateId (Some ''assistant'') rnd36,
       yielded = [], gen = Running\<rparr>)"
proof -
  obtain a b where t: "tee stream read2 = (a, b)" by (cases "tee stream read2") auto
  have "a = stream" using tee_fst [of stream read2] by (simp add: t)
  then show ?thesis by (simp add: sendMessage_def t)
qed

lemma sendMessage_relay_complete:
  assumes "snd (tee stream read2) = (chunks, e)" and "length chunks < n"
  shows "(relayStep ^^ n) (snd (sendMessage messages input rnd36 now stream read2)) =
          \<lparr>source = ([], e), target = generateId (Some ''assistant'') rnd36,
           yielded = fst (convertReadableStreamToAsyncIterable (chunks, e)
                            (generateId (Some ''assistant'') rnd36)),
           gen = Finished (snd (convertReadableStreamToAsyncIterable (chunks, e)
                            (generateId (Some ''assistant'') rnd36)))\<rparr>"
  unfolding sendMessage_eq using assms
  by (simp add: relaySteps_complete [where ws = chunks and e = e])

text \<open>Claim C4. For every chunk sequence on its branch, the generator of sendMessage
  yields each chunk in order as a \<^verbatim>\<open>streaming\<close> chunk carrying the id of the assistant
  message just stored, then one \<^verbatim>\<open>done\<close> chunk with empty text, and returns; asking
  it for more chunks after that yields nothing.\<close>

theorem live_relay_emits:
  "convertReadableStreamToAsyncIterable (chunks, Closed) mid =
     (map (\<lambda>w. \<lparr>messageId = mid, status_c = Streaming, text_c = w\<rparr>) chunks
        @ [\<lparr>messageId = mid, status_c = Done, text_c = []\<rparr>], Returned)
   \<and> target (snd (sendMessage messages input rnd36 now stream read2))
       = id_msg (msg (last (fst (sendMessage messages input rnd36 now stream read2))))
   \<and> (length chunks < n \<longrightarrow>
        (relayStep ^^ n) (snd (sendMessage messages input rnd36 now (chunks, Closed) read2)) =
          \<lparr>source = ([], Closed), target = generateId (Some ''assistant'') rnd36,
           yielded = fst (convertReadableStreamToAsyncIterable (chunks, Closed)
                            (generateId (Some ''assistant'') rnd36)),
           gen = Finished Returned\<rparr>)"
  using sendMessage_relay_complete [where stream = "(chunks, Closed)" and chunks = chunks
      and e = Closed and n = n and ?read2.0 = read2, OF tee_Closed, of messages input rnd36 now]
  by (simp add: convert_Closed) (simp add: sendMessage_eq)

theorem live_relay_emits_witness:
  "length [''a'', ''b'', ''c''] < 6
   \<and> (relayStep ^^ 6) (snd (sendMessage []
          \<lparr>id_msg = ''u1'', content = ''hi'', role = User, createdAt = 0, status = Done\<rparr>
          ''0.4fzyo82mvyr'' 1 ([''a'', ''b'', ''c''], Closed) 0)) =
       \<lparr>source = ([], Closed), target = ''assistant-4fzyo82mvyr'',
        yielded = [\<lparr>messageId = ''assistant-4fzyo82mvyr'', status_c = Streaming, text_c = ''a''\<rparr>,
                   \<lparr>messageId = ''assistant-4fzyo82mvyr'', status_c = Streaming, text_c = ''b''\<rparr>,
                   \<lparr>messageId = ''assistant-4fzyo82mvyr'', status_c = Streaming, text_c = ''c''\<rparr>,
                   \<lparr>messageId = ''assistant-4fzyo82mvyr'', status_c = Done, text_c = []\<rparr>],
        gen = Finished Returned\<rparr>"
  using live_relay_emits [of "[''a'', ''b'', ''c'']" "''assistant-4fzyo82mvyr''" "[]"
    "\<lparr>id_msg = ''u1'', content = ''hi'', role = User, createdAt = 0, status = Done\<rparr>"
    "''0.4fzyo82mvyr''" 1 "([''a'', ''b'', ''c''], Closed)" 0 6]
  by (simp add: generateId_def)

section \<open>Looking a message up\<close>

lemma find_None_ids:
  "(find (\<lambda>m. id_msg (msg m) = i) ms = None) = (i \<notin> (\<lambda>m. id_msg (msg m)) ` set ms)"
  by (auto simp: find_None_iff)

text \<open>Claim C6. resumeMessage fails with NotFound exactly when no stored message has the
  id of the input; it then yields no chunk, the failure being the whole result. When some
  stored message has the id, the call does not fail.\<close>

theorem resumeMessage_NotFound_iff:
  "(resumeMessage messages input fuel sched = Inl NotFound)
     = (id_msg input \<notin> (\<lambda>m. id_msg (msg m)) ` set messages)
   \<and> ((\<exists>r. resumeMessage messages input fuel sched = Inr r)
     = (id_msg input \<in> (\<lambda>m. id_msg (msg m)) ` set messages))"
proof -
  let ?f = "find (\<lambda>m. id_msg (msg m) = id_msg input) messages"
  have a: "(resumeMessage messages input fuel sched = Inl NotFound) = (?f = None)"
    by (simp add: resumeMessage_def split: option.splits)
  have b: "(\<exists>r. resumeMessage messages input fuel sched = Inr r) = (?f \<noteq> None)"
    by (simp add: resumeMessage_def split: option.splits)
  show ?thesis unfolding a b by (simp add: find_None_ids)
qed

theorem resumeMessage_NotFound_iff_witness:
  "resumeMessage
     [\<lparr>msg = \<lparr>id_msg = ''u1'', content = ''hi'', role = User, createdAt = 0, status = Done\<rparr>,
       writer = None\<rparr>]
     \<lparr>id_msg = ''nonexistent'', content = [], role = Assistant, createdAt = 0, status = Streaming\<rparr>
     5 (\<lambda>t. 1) = Inl NotFound"
  using resumeMessage_NotFound_iff [of
    "[\<lparr>msg = \<lparr>id_msg = ''u1'', content = ''hi'', role = User, createdAt = 0, status = Done\<rparr>,
       writer = None\<rparr>]"
    "\<lparr>id_msg = ''nonexistent'', content = [], role = Assistant, createdAt = 0, status = Streaming\<rparr>"
    5 "\<lambda>t. 1"]
  by simp

section \<open>Counting the words of the client\<close>

lemma countWords_split:
  "length (filter (\<lambda>w. w \<noteq> []) (split_space s)) = countWords (\<lambda>c. c = CHR '' '') False s
   \<and> length (filter (\<lambda>w. w \<noteq> []) (tl (split_space s))) = countWords (\<lambda>c. c = CHR '' '') True s"
  by (induction s) (auto split: list.splits simp: split_space_not_Nil)

lemma countWords_cong:
  "\<forall>c\<in>set s. d c = d' c \<Longrightarrow> countWords d b s = countWords d' b s"
  by (induction s arbitrary: b) auto

text \<open>Claim C8, as stated: the starting count of resumeMessage is the number of
  whitespace-delimited words of the reported content. It is not when the content has a tab:
  the code splits at the space character only.\<close>

theorem startWordCount_tab_counterexample:
  "startWordCount [CHR ''a'', CHR 0x09, CHR ''b''] = 1
   \<and> whitespaceWordCount [CHR ''a'', CHR 0x09, CHR ''b''] = 2"
  by (simp add: startWordCount_def wordsOf_def whitespaceWordCount_def isWhitespace_def)

text \<open>Claim C8, amended. The starting count of resumeMessage is computed by the splitting
  rule of pollMessage, and it is the number of space-delimited words of the reported content:
  the maximal runs of characters other than the space. It is the number of
  whitespace-delimited words whenever the content has no whitespace but spaces.\<close>

theorem startWordCount_counts_space_words:
  "startWordCount c = length (wordsOf c)
   \<and> startWordCount c = countWords (\<lambda>x. x = CHR '' '') False c
   \<and> ((\<forall>x\<in>set c. isWhitespace x \<longrightarrow> x = CHR '' '') \<longrightarrow> startWordCount c = whitespaceWordCount c)"
proof -
  have a: "startWordCount c = countWords (\<lambda>x. x = CHR '' '') False c"
    by (simp add: startWordCount_def wordsOf_def countWords_split)
  have "countWords (\<lambda>x. x = CHR '' '') False c = countWords isWhitespace False c"
    if "\<forall>x\<in>set c. isWhitespace x \<longrightarrow> x = CHR '' ''"
    using that by (intro countWords_cong) (auto simp: isWhitespace_def)
  with a show ?thesis by (simp add: whitespaceWordCount_def startWordCount_def)
qed

theorem startWordCount_counts_space_words_witness:
  "filter (\<lambda>x. isWhitespace x \<and> x \<noteq> CHR '' '') ''This  is a '' = []
   \<and> startWordCount ''This  is a '' = 3
   \<and> whitespaceWordCount ''This  is a '' = 3"
  using startWordCount_counts_space_words [of "''This  is a ''"]
  by (simp add: isWhitespace_def whitespaceWordCount_def)

section \<open>Generated identifiers\<close>

lemma generateId_inj:
  "(generateId p r = generateId p r') = (take 13 (drop 2 r) = take 13 (drop 2 r'))"
  by (auto simp: generateId_def Let_def split: option.splits)

text \<open>Claim C9, as stated: two calls of the id generator never return the same id. The
  id is a function of the random draw alone, so two calls that draw the same number return
  the same id, and the store then holds two assistant messages with one id.\<close>

theorem generateId_collision_counterexample:
  "\<not> distinct (map (generateId (Some ''assistant'')) [''0.4fzyo82mvyr'', ''0.9x'', ''0.4fzyo82mvyr''])
   \<and> \<not> distinct (map (\<lambda>m. id_msg (msg m))
          (fst (sendMessage
             (fst (sendMessage []
                \<lparr>id_msg = ''user-1'', content = ''hi'', role = User, createdAt = 0, status = Done\<rparr>
                ''0.4fzyo82mvyr'' 1 ([''a''], Closed) 0))
             \<lparr>id_msg = ''user-2'', content = ''ho'', role = User, createdAt = 2, status = Done\<rparr>
             ''0.4fzyo82mvyr'' 3 ([''b''], Closed) 0)))"
  by (simp add: generateId_def sendMessage_def tee_def)

text \<open>Claim C9, amended. For a given prefix the id is the prefix and the thirteen
  characters kept of the random draw, so the ids of a sequence of calls are pairwise
  different exactly when the kept parts of their draws are; the generator itself compares
  nothing.\<close>

theorem generateId_distinct_iff:
  "distinct (map (generateId prefix) draws) = distinct (map (\<lambda>r. take 13 (drop 2 r)) draws)"
  by (induction draws) (auto simp: generateId_inj)

theorem generateId_distinct_iff_witness:
  "distinct (map (generateId (Some ''assistant'')) [''0.4fzyo82mvyr'', ''0.9x'', ''0.4fzyo82mvys''])"
  using generateId_distinct_iff [of "Some ''assistant''" "[''0.4fzyo82mvyr'', ''0.9x'', ''0.4fzyo82mvys'']"]
  by simp

section \<open>The background consumer, turn by turn\<close>

lemma persistStep_idle: "writer p = None \<Longrightarrow> persistStep p = p"
  by (simp add: persistStep_def)

lemma persistSteps_idle: "writer p = None \<Longrightarrow> persistSteps n p = p"
  by (induction n) (simp_all add: persistSteps_def persistStep_idle)

lemma persistSteps_0: "persistSteps 0 p = p"
  by (simp add: persistSteps_def)

lemma persistSteps_Suc: "persistSteps (Suc n) p = persistSteps n (persistStep p)"
  by (simp add: persistSteps_def funpow_swap1)

lemma persistSteps_add: "persistSteps m (persistSteps n p) = persistSteps (n + m) p"
  by (simp add: persistSteps_def funpow_add add.commute)

lemma persistSteps_complete:
  "writer p = Some (ws, e) \<Longrightarrow> length ws < n \<Longrightarrow>
   persistSteps n p = p\<lparr>msg := consumeStream (ws, e) (msg p), writer := None\<rparr>"
proof (induction ws arbitrary: p n)
  case Nil
  then obtain k where n: "n = Suc k" by (cases n) auto
  show ?case using Nil n
    by (cases e) (simp_all add: persistSteps_Suc persistStep_def persistSteps_idle)
next
  case (Cons w ws)
  then obtain k where n: "n = Suc k" by (cases n) auto
  let ?p = "p\<lparr>msg := (msg p)\<lparr>content := appendWord (content (msg p)) w\<rparr>, writer := Some (ws, e)\<rparr>"
  have s: "persistStep p = ?p" using Cons.prems by (simp add: persistStep_def)
  have "persistSteps k ?p = ?p\<lparr>msg := consumeStream (ws, e) (msg ?p), writer := None\<rparr>"
    using Cons.prems n by (intro Cons.IH) simp_all
  then show ?case using n s by (simp add: persistSteps_Suc)
qed

lemma id_persistStep: "id_msg (msg (persistStep p)) = id_msg (msg p)"
  by (auto simp: persistStep_def split: option.splits list.splits stream_end.splits)

lemma id_persistSteps: "id_msg (msg (persistSteps n p)) = id_msg (msg p)"
  by (induction n arbitrary: p) (simp_all add: persistSteps_0 persistSteps_Suc id_persistStep)

lemma words_persistStep:
  "\<exists>ws. wordsOf (content (msg (persistStep p))) = wordsOf (content (msg p)) @ ws"
  by (auto simp: persistStep_def wordsOf_appendWord split: option.splits list.splits stream_end.splits)

lemma words_persistSteps:
  "\<exists>ws. wordsOf (content (msg (persistSteps n p))) = wordsOf (content (msg p)) @ ws"
proof (induction n arbitrary: p)
  case 0
  then show ?case by (simp add: persistSteps_0)
next
  case (Suc n)
  obtain a where a: "wordsOf (content (msg (persistStep p))) = wordsOf (content (msg p)) @ a"
    using words_persistStep by blast
  obtain b where "wordsOf (content (msg (persistSteps n (persistStep p)))) = wordsOf (content (msg (persistStep p))) @ b"
    using Suc by blast
  with a show ?case by (simp add: persistSteps_Suc)
qed

lemma words_mono: "length (wordsOf (content (msg p))) \<le> length (wordsOf (content (msg (persistSteps n p))))"
  using words_persistSteps[of n p] by auto

lemma failing_persistStep:
  "status (msg p) \<noteq> Done \<Longrightarrow> writer p = None \<or> (\<exists>ws. writer p = Some (ws, Errored)) \<Longrightarrow>
   status (msg (persistStep p)) \<noteq> Done
   \<and> (writer (persistStep p) = None \<or> (\<exists>ws. writer (persistStep p) = Some (ws, Errored)))"
  by (auto simp: persistStep_def split: list.splits)

lemma failing_persistSteps:
  "status (msg p) \<noteq> Done \<Longrightarrow> writer p = None \<or> (\<exists>ws. writer p = Some (ws, Errored)) \<Longrightarrow>
   status (msg (persistSteps n p)) \<noteq> Done"
proof (induction n arbitrary: p)
  case 0
  then show ?case by (simp add: persistSteps_0)
next
  case (Suc n)
  show ?case
    unfolding persistSteps_Suc
    using failing_persistStep[OF Suc.prems] by (intro Suc.IH) simp_all
qed

lemma left_persistStep:
  "(case writer (persistStep p) of None \<Rightarrow> 0 | Some (ws, e) \<Rightarrow> Suc (length ws))
     = (case writer p of None \<Rightarrow> 0 | Some (ws, e) \<Rightarrow> Suc (length ws)) - 1"
  by (auto simp: persistStep_def split: option.splits list.splits stream_end.splits)

lemma left_persistSteps:
  "(case writer (persistSteps n p) of None \<Rightarrow> 0 | Some (ws, e) \<Rightarrow> Suc (length ws))
     = (case writer p of None \<Rightarrow> 0 | Some (ws, e) \<Rightarrow> Suc (length ws)) - n"
proof (induction n arbitrary: p)
  case 0
  then show ?case by (simp add: persistSteps_0)
next
  case (Suc n)
  show ?case unfolding persistSteps_Suc Suc left_persistStep by simp
qed

lemma settled_persistStep:
  "(writer p = None \<longrightarrow> status (msg p) \<noteq> Streaming) \<Longrightarrow>
   (writer (persistStep p) = None \<longrightarrow> status (msg (persistStep p)) \<noteq> Streaming)"
  by (auto simp: persistStep_def split: option.splits list.splits stream_end.splits)

lemma settled_persistSteps:
  "(writer p = None \<longrightarrow> status (msg p) \<noteq> Streaming) \<Longrightarrow>
   (writer (persistSteps n p) = None \<longrightarrow> status (msg (persistSteps n p)) \<noteq> Streaming)"
proof (induction n arbitrary: p)
  case 0
  then show ?case by (simp add: persistSteps_0)
next
  case (Suc n)
  show ?case unfolding persistSteps_Suc
    using settled_persistStep[OF Suc.prems] by (rule Suc.IH)
qed

section \<open>Polling\<close>

lemma yieldWords_done: "length words \<le> i \<Longrightarrow> yieldWords words i sched t p = ([], t, p)"
  by (simp add: yieldWords.simps)

lemma yieldWords_step:
  "i < length words \<Longrightarrow>
   yieldWords words i sched t p =
     (case yieldWords words (Suc i) sched (Suc t) (persistSteps (sched t) p) of
        (cs, t', p') \<Rightarrow>
          ((i, \<lparr>messageId = id_msg (msg p), status_c = Streaming, text_c = words ! i\<rparr>) # cs, t', p'))"
  by (subst yieldWords.simps) simp

lemma yieldWords_indices: "map fst (fst (yieldWords words i sched t p)) = [i..<length words]"
proof (induction words i sched t p rule: yieldWords.induct)
  case (1 words i sched t p)
  show ?case
  proof (cases "i < length words")
    case True
    with 1 show ?thesis
      by (cases "yieldWords words (Suc i) sched (Suc t) (persistSteps (sched t) p)")
         (simp add: yieldWords_step upt_conv_Cons)
  next
    case False
    then show ?thesis by (simp add: yieldWords_done)
  qed
qed

lemma yieldWords_state: "\<exists>n. snd (snd (yieldWords words i sched t p)) = persistSteps n p"
proof (induction words i sched t p rule: yieldWords.induct)
  case (1 words i sched t p)
  show ?case
  proof (cases "i < length words")
    case True
    with 1 obtain n where
      "snd (snd (yieldWords words (Suc i) sched (Suc t) (persistSteps (sched t) p))) = persistSteps n (persistSteps (sched t) p)"
      by blast
    with True show ?thesis
      by (auto simp: yieldWords_step persistSteps_add split: prod.splits)
  next
    case False
    then show ?thesis by (auto simp: yieldWords_done intro: exI[of _ 0] simp: persistSteps_0)
  qed
qed

lemma yieldWords_idle:
  "writer p = None \<Longrightarrow>
   yieldWords words i sched t p =
     (map (\<lambda>j. (j, \<lparr>messageId = id_msg (msg p), status_c = Streaming, text_c = words ! j\<rparr>)) [i..<length words],
      t + (length words - i), p)"
proof (induction words i sched t p rule: yieldWords.induct)
  case (1 words i sched t p)
  show ?case
  proof (cases "i < length words")
    case True
    with 1 show ?thesis
      by (simp add: yieldWords_step persistSteps_idle upt_conv_Cons)
  next
    case False
    then show ?thesis by (simp add: yieldWords_done)
  qed
qed

lemma yieldWords_texts:
  "(j, c) \<in> set (fst (yieldWords words i sched t p)) \<Longrightarrow>
   j < length words \<and> text_c c = words ! j \<and> status_c c = Streaming \<and> messageId c = id_msg (msg p)"
proof (induction words i sched t p rule: yieldWords.induct)
  case (1 words i sched t p)
  show ?case
  proof (cases "i < length words")
    case True
    with 1 show ?thesis
      by (cases "yieldWords words (Suc i) sched (Suc t) (persistSteps (sched t) p)")
         (auto simp: yieldWords_step id_persistSteps)
  next
    case False
    with 1 show ?thesis by (simp add: yieldWords_done)
  qed
qed

lemma map_nth_drop: "map ((!) xs) [k..<length xs] = drop k xs"
proof -
  have "drop k xs = drop k (map ((!) xs) [0..<length xs])" by (simp add: map_nth)
  then show ?thesis by (simp add: drop_map)
qed

lemma pollMessage_settled:
  assumes "writer p = None" and "status (msg p) \<noteq> Streaming"
  shows "pollMessage (Suc fuel) sched t p k =
     (map (\<lambda>j. (j, \<lparr>messageId = id_msg (msg p), status_c = Streaming,
                      text_c = wordsOf (content (msg p)) ! j\<rparr>)) [k..<length (wordsOf (content (msg p)))],
      Some \<lparr>messageId = id_msg (msg p), status_c = status (msg p), text_c = []\<rparr>)"
  using assms by (cases "status (msg p)") (simp_all add: yieldWords_idle Let_def)

lemma chunksOf_settled:
  assumes "writer p = None" and "status (msg p) \<noteq> Streaming"
  shows "chunksOf (pollMessage (Suc fuel) sched t p k) =
     map (\<lambda>w. \<lparr>messageId = id_msg (msg p), status_c = Streaming, text_c = w\<rparr>)
         (drop k (wordsOf (content (msg p))))
       @ [\<lparr>messageId = id_msg (msg p), status_c = status (msg p), text_c = []\<rparr>]"
proof -
  have "map (\<lambda>j. \<lparr>messageId = id_msg (msg p), status_c = Streaming, text_c = wordsOf (content (msg p)) ! j\<rparr>)
          [k..<length (wordsOf (content (msg p)))]
        = map (\<lambda>w. \<lparr>messageId = id_msg (msg p), status_c = Streaming, text_c = w\<rparr>)
            (map ((!) (wordsOf (content (msg p)))) [k..<length (wordsOf (content (msg p)))])"
    by (simp add: comp_def)
  then show ?thesis
    unfolding pollMessage_settled[OF assms] chunksOf_def
    by (simp add: comp_def map_nth_drop)
qed

lemma pollMessage_indices:
  "sorted_wrt (<) (map fst (fst (pollMessage fuel sched t p lc)))
   \<and> (\<forall>i\<in>set (map fst (fst (pollMessage fuel sched t p lc))).
         min lc (length (wordsOf (content (msg p)))) \<le> i)"
proof (induction fuel arbitrary: t p lc)
  case 0
  show ?case by simp
next
  case (Suc fuel)
  let ?words = "wordsOf (content (msg p))"
  obtain cs t' p' where y: "yieldWords ?words lc sched t p = (cs, t', p')"
    by (cases "yieldWords ?words lc sched t p") auto
  have cs: "map fst cs = [lc..<length ?words]"
    using yieldWords_indices[of ?words lc sched t p] y by simp
  obtain n where "p' = persistSteps n p"
    using yieldWords_state[of ?words lc sched t p] y by auto
  then have p'': "persistSteps (sched t') p' = persistSteps (n + sched t') p"
    by (simp add: persistSteps_add)
  let ?r = "pollMessage fuel sched (Suc t') (persistSteps (sched t') p') (length ?words)"
  have mono: "length ?words \<le> length (wordsOf (content (msg (persistSteps (sched t') p'))))"
    unfolding p'' by (rule words_mono)
  have ih1: "sorted_wrt (<) (map fst (fst ?r))"
    and ih2: "\<forall>i\<in>set (map fst (fst ?r)). length ?words \<le> i"
    using Suc[of "Suc t'" "persistSteps (sched t') p'" "length ?words"] mono by (simp_all add: min_def)
  have both: "sorted_wrt (<) ([lc..<length ?words] @ map fst (fst ?r))
      \<and> (\<forall>i\<in>set ([lc..<length ?words] @ map fst (fst ?r)). min lc (length ?words) \<le> i)"
    using ih1 ih2 by (auto simp: sorted_wrt_append)
  have short: "sorted_wrt (<) [lc..<length ?words]
      \<and> (\<forall>i\<in>set [lc..<length ?words]. min lc (length ?words) \<le> i)"
    by auto
  have "map fst (fst (pollMessage (Suc fuel) sched t p lc)) = [lc..<length ?words]
      \<or> map fst (fst (pollMessage (Suc fuel) sched t p lc)) = [lc..<length ?words] @ map fst (fst ?r)"
    using y cs by (cases ?r) (simp add: Let_def)
  then show ?case
  proof
    assume e: "map fst (fst (pollMessage (Suc fuel) sched t p lc)) = [lc..<length ?words]"
    show ?case unfolding e by (rule short)
  next
    assume e: "map fst (fst (pollMessage (Suc fuel) sched t p lc)) = [lc..<length ?words] @ map fst (fst ?r)"
    show ?case unfolding e by (rule both)
  qed
qed

lemma pollMessage_texts:
  "(i, c) \<in> set (fst (pollMessage fuel sched t p lc)) \<Longrightarrow>
   \<exists>n. i < length (wordsOf (content (msg (persistSteps n p))))
      \<and> text_c c = wordsOf (content (msg (persistSteps n p))) ! i"
proof (induction fuel arbitrary: t p lc)
  case 0
  then show ?case by simp
next
  case (Suc fuel)
  let ?words = "wordsOf (content (msg p))"
  obtain cs t' p' where y: "yieldWords ?words lc sched t p = (cs, t', p')"
    by (cases "yieldWords ?words lc sched t p") auto
  obtain n where p': "p' = persistSteps n p"
    using yieldWords_state[of ?words lc sched t p] y by auto
  let ?p'' = "persistSteps (sched t') p'"
  let ?r = "pollMessage fuel sched (Suc t') ?p'' (length ?words)"
  have "(i, c) \<in> set cs \<or> (i, c) \<in> set (fst ?r)"
    using Suc.prems y by (cases ?r) (auto simp: Let_def split: if_splits)
  then show ?case
  proof
    assume "(i, c) \<in> set cs"
    then have "i < length ?words \<and> text_c c = ?words ! i"
      using yieldWords_texts[of i c ?words lc sched t p] y by simp
    then show ?case by (intro exI[of _ 0]) (simp add: persistSteps_0)
  next
    assume "(i, c) \<in> set (fst ?r)"
    then obtain m where
      "i < length (wordsOf (content (msg (persistSteps m ?p''))))
       \<and> text_c c = wordsOf (content (msg (persistSteps m ?p''))) ! i"
      using Suc.IH by blast
    then show ?case
      by (intro exI[of _ "n + sched t' + m"]) (simp add: p' persistSteps_add)
  qed
qed

lemma pollMessage_terminal:
  "snd (pollMessage fuel sched t p lc) = Some c \<Longrightarrow>
   \<exists>n. c = \<lparr>messageId = id_msg (msg p), status_c = status (msg (persistSteps n p)), text_c = []\<rparr>
        \<and> status (msg (persistSteps n p)) \<noteq> Streaming"
proof (induction fuel arbitrary: t p lc)
  case 0
  then show ?case by simp
next
  case (Suc fuel)
  let ?words = "wordsOf (content (msg p))"
  obtain cs t' p' where y: "yieldWords ?words lc sched t p = (cs, t', p')"
    by (cases "yieldWords ?words lc sched t p") auto
  obtain n where p': "p' = persistSteps n p"
    using yieldWords_state[of ?words lc sched t p] y by auto
  let ?r = "pollMessage fuel sched (Suc t') (persistSteps (sched t') p') (length ?words)"
  consider (d) "status (msg p') = Done" | (e) "status (msg p') = Error" | (s) "status (msg p') = Streaming"
    by (cases "status (msg p')") auto
  then show ?case
  proof cases
    case d
    then have "c = \<lparr>messageId = id_msg (msg p'), status_c = Done, text_c = []\<rparr>"
      using Suc.prems y by (simp add: Let_def)
    with d p' show ?thesis by (intro exI[of _ n]) (simp add: id_persistSteps)
  next
    case e
    then have "c = \<lparr>messageId = id_msg (msg p'), status_c = Error, text_c = []\<rparr>"
      using Suc.prems y by (simp add: Let_def)
    with e p' show ?thesis by (intro exI[of _ n]) (simp add: id_persistSteps)
  next
    case s
    then have "snd ?r = Some c"
      using Suc.prems y by (cases ?r) (simp add: Let_def)
    then obtain m where
      m: "c = \<lparr>messageId = id_msg (msg (persistSteps (sched t') p')),
               status_c = status (msg (persistSteps m (persistSteps (sched t') p'))), text_c = []\<rparr>"
         "status (msg (persistSteps m (persistSteps (sched t') p'))) \<noteq> Streaming"
      using Suc.IH by blast
    have "persistSteps m (persistSteps (sched t') p') = persistSteps (n + sched t' + m) p"
      by (simp add: p' persistSteps_add)
    with m show ?thesis
      by (intro exI[of _ "n + sched t' + m"]) (simp add: id_persistSteps p')
  qed
qed

lemma turns_add: "turns sched t (a + b) = turns sched t a + turns sched (t + a) b"
  by (induction a arbitrary: t) simp_all

lemma yieldWords_exact:
  "fst (snd (yieldWords words i sched t p)) = t + (length words - i)
   \<and> snd (snd (yieldWords words i sched t p)) = persistSteps (turns sched t (length words - i)) p"
proof (induction words i sched t p rule: yieldWords.induct)
  case (1 words i sched t p)
  show ?case
  proof (cases "i < length words")
    case True
    then have d: "length words - i = Suc (length words - Suc i)" by simp
    from True 1 show ?thesis
      by (cases "yieldWords words (Suc i) sched (Suc t) (persistSteps (sched t) p)")
         (simp add: yieldWords_step d persistSteps_add)
  next
    case False
    then show ?thesis by (simp add: yieldWords_done persistSteps_0)
  qed
qed

lemma pollMessage_terminates:
  "(writer p = None \<longrightarrow> status (msg p) \<noteq> Streaming) \<Longrightarrow>
   (case writer p of None \<Rightarrow> 0 | Some (ws, e) \<Rightarrow> Suc (length ws)) \<le> turns sched t k \<Longrightarrow>
   k < fuel \<Longrightarrow>
   snd (pollMessage fuel sched t p lc) \<noteq> None"
proof (induction fuel arbitrary: t p lc k)
  case 0
  then show ?case by simp
next
  case (Suc fuel)
  let ?left = "\<lambda>p. (case writer p of None \<Rightarrow> 0 | Some (ws, e) \<Rightarrow> Suc (length ws))"
  let ?words = "wordsOf (content (msg p))"
  let ?m = "length ?words - lc"
  obtain cs t' p' where y: "yieldWords ?words lc sched t p = (cs, t', p')"
    by (cases "yieldWords ?words lc sched t p") auto
  have t': "t' = t + ?m" and p': "p' = persistSteps (turns sched t ?m) p"
    using yieldWords_exact [of ?words lc sched t p] y by simp_all
  let ?p'' = "persistSteps (sched t') p'"
  let ?r = "pollMessage fuel sched (Suc t') ?p'' (length ?words)"
  show ?case
  proof (cases "status (msg p') = Streaming")
    case False
    then show ?thesis using y by (cases "status (msg p')") (simp_all add: Let_def)
  next
    case True
    have inv': "writer p' = None \<longrightarrow> status (msg p') \<noteq> Streaming"
      unfolding p' using Suc.prems(1) by (rule settled_persistSteps)
    with True have "writer p' \<noteq> None" by blast
    then have pos: "0 < ?left p'" by (auto split: option.splits)
    have l': "?left p' = ?left p - turns sched t ?m" unfolding p' by (rule left_persistSteps)
    with pos Suc.prems(2) have lt: "turns sched t ?m < turns sched t k" by linarith
    have mk: "?m < k"
    proof (rule ccontr)
      assume "\<not> ?m < k"
      then obtain d where "?m = k + d" using le_Suc_ex [of k ?m] by auto
      then have "turns sched t k \<le> turns sched t ?m" by (simp add: turns_add)
      with lt show False by simp
    qed
    then obtain k' where k: "k = Suc ?m + k'" using less_imp_Suc_add [of ?m k] by auto
    have split: "turns sched t k = turns sched t ?m + sched t' + turns sched (Suc t') k'"
      unfolding k using turns_add [of sched t "Suc ?m" k'] turns_add [of sched t ?m "Suc 0"]
      by (simp add: t')
    have l'': "?left ?p'' = ?left p' - sched t'" by (rule left_persistSteps)
    have le: "?left ?p'' \<le> turns sched (Suc t') k'"
      using l'' l' Suc.prems(2) split by linarith
    have kf: "k' < fuel" using k Suc.prems(3) by simp
    have inv'': "writer ?p'' = None \<longrightarrow> status (msg ?p'') \<noteq> Streaming"
      using inv' by (rule settled_persistSteps)
    have "snd ?r \<noteq> None" using inv'' le kf by (rule Suc.IH)
    then show ?thesis using True y by (cases ?r) (simp add: Let_def)
  qed
qed

lemma pollMessage_failing:
  assumes "status (msg p) \<noteq> Done"
      and "writer p = None \<or> (\<exists>ws. writer p = Some (ws, Errored))"
      and "snd (pollMessage fuel sched t p lc) = Some c"
  shows "c = \<lparr>messageId = id_msg (msg p), status_c = Error, text_c = []\<rparr>"
proof -
  obtain n where n: "c = \<lparr>messageId = id_msg (msg p), status_c = status (msg (persistSteps n p)), text_c = []\<rparr>"
      "status (msg (persistSteps n p)) \<noteq> Streaming"
    using pollMessage_terminal [OF assms(3)] by blast
  have "status (msg (persistSteps n p)) \<noteq> Done"
    using assms(1,2) by (rule failing_persistSteps)
  with n(2) have "status (msg (persistSteps n p)) = Error"
    by (cases "status (msg (persistSteps n p))") simp_all
  with n(1) show ?thesis by simp
qed

text \<open>Claim C7. Within one resumeMessage call the indices of the words yielded are
  strictly increasing, so no index is yielded twice, whatever the client reported and
  however the background consumer advances while the call is suspended; and the chunk
  yielded at an index is the word at that index of the content of the message at some
  moment of the run.\<close>

theorem resumeMessage_at_most_once:
  assumes "find (\<lambda>m. id_msg (msg m) = id_msg input) messages = Some message"
  shows "\<exists>r. resumeMessage messages input fuel sched = Inr r
           \<and> sorted_wrt (<) (map fst (fst r)) \<and> distinct (map fst (fst r))
           \<and> (\<forall>(i, c)\<in>set (fst r). \<exists>n.
                 i < length (wordsOf (content (msg (persistSteps n message))))
                 \<and> text_c c = wordsOf (content (msg (persistSteps n message))) ! i)"
proof -
  let ?r = "pollMessage fuel sched 0 message (startWordCount (content input))"
  have r: "resumeMessage messages input fuel sched = Inr ?r"
    using assms by (simp add: resumeMessage_def)
  have s: "sorted_wrt (<) (map fst (fst ?r))"
    using pollMessage_indices by blast
  then have d: "distinct (map fst (fst ?r))"
    by (simp add: strict_sorted_iff)
  have t: "\<forall>(i, c)\<in>set (fst ?r). \<exists>n.
                 i < length (wordsOf (content (msg (persistSteps n message))))
                 \<and> text_c c = wordsOf (content (msg (persistSteps n message))) ! i"
    using pollMessage_texts by blast
  show ?thesis using r s d t by blast
qed

theorem resumeMessage_at_most_once_witness:
  "find (\<lambda>m. id_msg (msg m) = ''assistant-1'')
     [\<lparr>msg = \<lparr>id_msg = ''assistant-1'', content = ''a'', role = Assistant, createdAt = 0,
               status = Streaming\<rparr>,
       writer = Some ([''b'', ''c''], Closed)\<rparr>]
     = Some \<lparr>msg = \<lparr>id_msg = ''assistant-1'', content = ''a'', role = Assistant, createdAt = 0,
               status = Streaming\<rparr>,
             writer = Some ([''b'', ''c''], Closed)\<rparr>
   \<and> resumeMessage
       [\<lparr>msg = \<lparr>id_msg = ''assistant-1'', content = ''a'', role = Assistant, createdAt = 0,
                 status = Streaming\<rparr>,
         writer = Some ([''b'', ''c''], Closed)\<rparr>]
       \<lparr>id_msg = ''assistant-1'', content = [], role = Assistant, createdAt = 0, status = Streaming\<rparr>
       (Suc (Suc (Suc 0))) (\<lambda>t. Suc 0)
     = Inr ([(0, \<lparr>messageId = ''assistant-1'', status_c = Streaming, text_c = ''a''\<rparr>),
             (1, \<lparr>messageId = ''assistant-1'', status_c = Streaming, text_c = ''b''\<rparr>),
             (2, \<lparr>messageId = ''assistant-1'', status_c = Streaming, text_c = ''c''\<rparr>)],
            Some \<lparr>messageId = ''assistant-1'', status_c = Done, text_c = []\<rparr>)
   \<and> sorted_wrt (<) [0, 1, 2 :: nat]"
  using resumeMessage_at_most_once [of
      "\<lparr>id_msg = ''assistant-1'', content = [], role = Assistant, createdAt = 0, status = Streaming\<rparr>"
      "[\<lparr>msg = \<lparr>id_msg = ''assistant-1'', content = ''a'', role = Assistant, createdAt = 0,
                 status = Streaming\<rparr>,
         writer = Some ([''b'', ''c''], Closed)\<rparr>]"
      "\<lparr>msg = \<lparr>id_msg = ''assistant-1'', content = ''a'', role = Assistant, createdAt = 0,
               status = Streaming\<rparr>,
             writer = Some ([''b'', ''c''], Closed)\<rparr>"
      "Suc (Suc (Suc 0))" "\<lambda>t. Suc 0"]
  by (simp add: resumeMessage_def startWordCount_def wordsOf_def yieldWords.simps
        persistSteps_def persistStep_def appendWord_def)

section \<open>Runs of sendMessage\<close>

lemma run_Nil: "run [] s = s" by (simp add: run_def)

lemma run_Cons: "run (ev # evs) s = run evs (step s ev)" by (simp add: run_def)

lemma run_append: "run (a @ b) s = run b (run a s)"
  by (simp add: run_def)

lemma run_consumer:
  "a < length ms \<Longrightarrow>
   length (fst (run evs (ms, r))) = length ms
   \<and> fst (run evs (ms, r)) ! a = persistSteps (count_list evs (Consume a)) (ms ! a)"
proof (induction evs arbitrary: ms r)
  case Nil
  then show ?case by (simp add: run_Nil persistSteps_0)
next
  case (Cons ev evs)
  show ?case
  proof (cases ev)
    case (Consume i)
    let ?ms = "if i < length ms then ms[i := persistStep (ms ! i)] else ms"
    have l: "a < length ?ms" using Cons.prems by simp
    have n: "?ms ! a = (if i = a then persistStep (ms ! a) else ms ! a)"
      using Cons.prems by simp
    show ?thesis
      using Cons.IH[OF l, of r] n Consume Cons.prems
      by (simp add: run_Cons persistSteps_Suc)
  next
    case Pull
    then show ?thesis using Cons.IH[OF Cons.prems, of "relayStep r"] by (simp add: run_Cons)
  next
    case Abort
    then show ?thesis using Cons.IH[OF Cons.prems, of "relayAbort r"] by (simp add: run_Cons)
  qed
qed

lemma run_relay_stopped: "gen r \<noteq> Running \<Longrightarrow> snd (run evs (ms, r)) = r"
proof (induction evs arbitrary: ms)
  case Nil
  then show ?case by (simp add: run_Nil)
next
  case (Cons ev evs)
  then show ?case
    by (cases ev) (simp_all add: run_Cons relayStep_def relayAbort_def)
qed

lemma relayAbort_stops: "gen (relayAbort r) \<noteq> Running \<and> yielded (relayAbort r) = yielded r"
  by (simp add: relayAbort_def)

lemma run_abort_yields:
  "yielded (snd (run (pre @ Abort # post) s)) = yielded (snd (run pre s))"
proof -
  obtain ms' r' where p: "run pre s = (ms', r')" by (cases "run pre s") auto
  have "snd (run post (ms', relayAbort r')) = relayAbort r'"
    using relayAbort_stops by (intro run_relay_stopped) blast
  then show ?thesis
    by (simp add: run_append run_Cons p relayAbort_stops)
qed

lemma sendMessage_run_finished:
  assumes "length chunks < count_list es (Consume (Suc (length messages)))"
  shows "fst (run es (sendMessage messages input rnd36 now (chunks, e) read2)) ! Suc (length messages)
     = \<lparr>msg = consumeStream (chunks, e)
               \<lparr>id_msg = generateId (Some ''assistant'') rnd36, content = [], role = Assistant,
                createdAt = now, status = Streaming\<rparr>,
        writer = None\<rparr>"
proof -
  let ?a = "\<lparr>id_msg = generateId (Some ''assistant'') rnd36, content = [], role = Assistant,
             createdAt = now, status = Streaming\<rparr>"
  let ?ms = "messages @ [\<lparr>msg = input, writer = None\<rparr>, \<lparr>msg = ?a, writer = Some (chunks, e)\<rparr>]"
  let ?r = "\<lparr>source = snd (tee (chunks, e) read2), target = generateId (Some ''assistant'') rnd36,
             yielded = [], gen = Running\<rparr>"
  have s: "sendMessage messages input rnd36 now (chunks, e) read2 = (?ms, ?r)"
    by (rule sendMessage_eq)
  have l: "Suc (length messages) < length ?ms" by simp
  have n: "?ms ! Suc (length messages) = \<lparr>msg = ?a, writer = Some (chunks, e)\<rparr>"
    by (simp add: nth_append)
  have "fst (run es (?ms, ?r)) ! Suc (length messages)
          = persistSteps (count_list es (Consume (Suc (length messages)))) (?ms ! Suc (length messages))"
    using run_consumer [OF l] by blast
  also have "\<dots> = \<lparr>msg = ?a, writer = Some (chunks, e)\<rparr>
                     \<lparr>msg := consumeStream (chunks, e) ?a, writer := None\<rparr>"
    unfolding n using assms by (subst persistSteps_complete [where ws = chunks and e = e]) simp_all
  finally show ?thesis unfolding s by simp
qed

text \<open>Claim C1. After sendMessage has started, let the background consumers, the
  generator of the call and the client act in any order, the client aborting the call at
  any point or never. As soon as the consumer of the assistant message has had its turns,
  one more than there are chunks, the stored assistant message is the one that consuming
  the whole source gives: the same in a run with an abort and in a run without, with the
  terminal status of the source and all of its chunks as content. After the abort the
  generator yields nothing more.\<close>

theorem sendMessage_abort_independent:
  assumes "length chunks < count_list evs (Consume (Suc (length messages)))"
      and "length chunks < count_list evs' (Consume (Suc (length messages)))"
  shows "msg (fst (run evs (sendMessage messages input rnd36 now (chunks, e) read2)) ! Suc (length messages))
           = consumeStream (chunks, e)
               \<lparr>id_msg = generateId (Some ''assistant'') rnd36, content = [], role = Assistant,
                createdAt = now, status = Streaming\<rparr>
       \<and> msg (fst (run evs' (sendMessage messages input rnd36 now (chunks, e) read2)) ! Suc (length messages))
           = msg (fst (run evs (sendMessage messages input rnd36 now (chunks, e) read2)) ! Suc (length messages))
       \<and> status (msg (fst (run evs (sendMessage messages input rnd36 now (chunks, e) read2)) ! Suc (length messages)))
           = (case e of Closed \<Rightarrow> Done | Errored \<Rightarrow> Error)
       \<and> content (msg (fst (run evs (sendMessage messages input rnd36 now (chunks, e) read2)) ! Suc (length messages)))
           = foldl appendWord [] chunks
       \<and> yielded (snd (run (pre @ Abort # post) (sendMessage messages input rnd36 now (chunks, e) read2)))
           = yielded (snd (run pre (sendMessage messages input rnd36 now (chunks, e) read2)))"
  using sendMessage_run_finished [OF assms(1), of input rnd36 now e read2]
    sendMessage_run_finished [OF assms(2), of input rnd36 now e read2]
  by (simp add: status_consumeStream content_consumeStream run_abort_yields)

theorem sendMessage_abort_independent_witness:
  "length [''a'', ''b'', ''c''] < count_list [Pull, Consume 1, Abort, Consume 1, Pull, Consume 1, Consume 1] (Consume (Suc (length [])))
   \<and> length [''a'', ''b'', ''c''] < count_list [Consume 1, Pull, Consume 1, Pull, Consume 1, Pull, Consume 1, Pull] (Consume (Suc (length [])))
   \<and> msg (fst (run [Pull, Consume 1, Abort, Consume 1, Pull, Consume 1, Consume 1]
         (sendMessage [] \<lparr>id_msg = ''u1'', content = ''hi'', role = User, createdAt = 0, status = Done\<rparr>
            ''0.4fzyo82mvyr'' 1 ([''a'', ''b'', ''c''], Closed) 0)) ! Suc (length []))
       = \<lparr>id_msg = ''assistant-4fzyo82mvyr'', content = ''a b c'', role = Assistant, createdAt = 1, status = Done\<rparr>
   \<and> msg (fst (run [Consume 1, Pull, Consume 1, Pull, Consume 1, Pull, Consume 1, Pull]
         (sendMessage [] \<lparr>id_msg = ''u1'', content = ''hi'', role = User, createdAt = 0, status = Done\<rparr>
            ''0.4fzyo82mvyr'' 1 ([''a'', ''b'', ''c''], Closed) 0)) ! Suc (length []))
       = \<lparr>id_msg = ''assistant-4fzyo82mvyr'', content = ''a b c'', role = Assistant, createdAt = 1, status = Done\<rparr>
   \<and> yielded (snd (run [Pull, Consume 1, Abort, Consume 1, Pull, Consume 1, Consume 1]
         (sendMessage [] \<lparr>id_msg = ''u1'', content = ''hi'', role = User, createdAt = 0, status = Done\<rparr>
            ''0.4fzyo82mvyr'' 1 ([''a'', ''b'', ''c''], Closed) 0)))
       = [\<lparr>messageId = ''assistant-4fzyo82mvyr'', status_c = Streaming, text_c = ''a''\<rparr>]"
  using sendMessage_abort_independent [of "[''a'', ''b'', ''c'']"
      "[Pull, Consume 1, Abort, Consume 1, Pull, Consume 1, Consume 1]" "[]"
      "[Consume 1, Pull, Consume 1, Pull, Consume 1, Pull, Consume 1, Pull]"
      "\<lparr>id_msg = ''u1'', content = ''hi'', role = User, createdAt = 0, status = Done\<rparr>"
      "''0.4fzyo82mvyr''" 1 Closed 0 "[Pull, Consume 1]" "[Consume 1, Pull, Consume 1, Consume 1]"]
  by (simp add: generateId_def appendWord_def run_def sendMessage_def tee_def relayStep_def relayAbort_def)

section \<open>Resuming\<close>

text \<open>A resumeMessage call on a message whose consumer has left its loop before the call,
  closed or failed, and whose chunks are words: with the first \<open>k\<close> chunks as content of
  the input it yields the remaining chunks in order, then one terminal chunk with the final
  status of the message, in its first poll.\<close>

lemma resumeMessage_finished:
  assumes "list_all isWord chunks"
      and "find (\<lambda>m. id_msg (msg m) = id_msg input) messages
             = Some \<lparr>msg = consumeStream (chunks, e) (assistantMessage\<lparr>content := []\<rparr>), writer = None\<rparr>"
      and "content input = foldl appendWord [] (take k chunks)"
  shows "map_sum id chunksOf (resumeMessage messages input (Suc fuel) sched) =
     Inr (map (\<lambda>w. \<lparr>messageId = id_msg assistantMessage, status_c = Streaming, text_c = w\<rparr>) (drop k chunks)
          @ [\<lparr>messageId = id_msg assistantMessage,
               status_c = (case e of Closed \<Rightarrow> Done | Errored \<Rightarrow> Error), text_c = []\<rparr>])"
proof -
  let ?p = "\<lparr>msg = consumeStream (chunks, e) (assistantMessage\<lparr>content := []\<rparr>), writer = None\<rparr>"
  have idp: "id_msg (msg ?p) = id_msg assistantMessage"
    by (simp add: id_consumeStream)
  have w: "wordsOf (content (msg ?p)) = chunks"
    using assms(1) by (simp add: content_consumeStream wordsOf_join)
  have st: "status (msg ?p) = (case e of Closed \<Rightarrow> Done | Errored \<Rightarrow> Error)"
    by (simp add: status_consumeStream)
  have st': "status (msg ?p) \<noteq> Streaming"
    unfolding st by (cases e) simp_all
  have "list_all isWord (take k chunks)"
    using assms(1) by (auto simp: list_all_iff dest: in_set_takeD)
  then have k: "startWordCount (content input) = min k (length chunks)"
    using assms(3) by (simp add: startWordCount_def wordsOf_join min.commute)
  have d: "drop (min k (length chunks)) chunks = drop k chunks"
    by (cases "k \<le> length chunks") (simp_all add: min_def)
  have "chunksOf (pollMessage (Suc fuel) sched 0 ?p (startWordCount (content input))) =
     map (\<lambda>w. \<lparr>messageId = id_msg (msg ?p), status_c = Streaming, text_c = w\<rparr>)
         (drop (startWordCount (content input)) (wordsOf (content (msg ?p))))
       @ [\<lparr>messageId = id_msg (msg ?p), status_c = status (msg ?p), text_c = []\<rparr>]"
    using st' by (intro chunksOf_settled) simp_all
  then show ?thesis
    unfolding resumeMessage_def assms(2) w k d st using idp by simp
qed

text \<open>Claim C2. For an assistant message whose generation produces \<open>N\<close> chunks and
  finishes, resumeMessage with the first \<open>k\<close> chunks as content is to yield exactly the
  remaining \<open>N - k\<close> chunks, in order, as \<^verbatim>\<open>streaming\<close> chunks, and then one terminal
  chunk with the final status. pollMessage does not when the generation finishes during
  the call: it reads the content once per poll and the status after its yields, so what the
  consumer writes while the call is suspended at a \<^verbatim>\<open>yield\<close> is lost when the status
  \<^verbatim>\<open>done\<close> follows at once. Here sendMessage runs on the source \<^verbatim>\<open>a b c\<close>; the
  client receives \<^verbatim>\<open>a\<close> and aborts when the consumer has persisted \<^verbatim>\<open>a b\<close>; it
  resumes with the content \<^verbatim>\<open>a\<close>, and while the call is suspended at the yield of
  \<^verbatim>\<open>b\<close> the consumer appends \<^verbatim>\<open>c\<close> and sets \<^verbatim>\<open>done\<close>. The call yields \<^verbatim>\<open>b\<close>
  and the terminal chunk; \<^verbatim>\<open>c\<close>, the third of the three chunks persisted, is never
  delivered.\<close>

theorem resumeMessage_in_flight_misses_word:
  "fst (run [Pull, Consume 1, Consume 1, Abort]
         (sendMessage [] \<lparr>id_msg = ''u1'', content = ''hi'', role = User, createdAt = 0, status = Done\<rparr>
            ''0.4fzyo82mvyr'' 1 ([''a'', ''b'', ''c''], Closed) 0))
     = [\<lparr>msg = \<lparr>id_msg = ''u1'', content = ''hi'', role = User, createdAt = 0, status = Done\<rparr>,
         writer = None\<rparr>,
        \<lparr>msg = \<lparr>id_msg = ''assistant-4fzyo82mvyr'', content = ''a b'', role = Assistant,
                 createdAt = 1, status = Streaming\<rparr>,
         writer = Some ([''c''], Closed)\<rparr>]
   \<and> yielded (snd (run [Pull, Consume 1, Consume 1, Abort]
         (sendMessage [] \<lparr>id_msg = ''u1'', content = ''hi'', role = User, createdAt = 0, status = Done\<rparr>
            ''0.4fzyo82mvyr'' 1 ([''a'', ''b'', ''c''], Closed) 0)))
     = [\<lparr>messageId = ''assistant-4fzyo82mvyr'', status_c = Streaming, text_c = ''a''\<rparr>]
   \<and> map_sum id chunksOf (resumeMessage
         (fst (run [Pull, Consume 1, Consume 1, Abort]
           (sendMessage [] \<lparr>id_msg = ''u1'', content = ''hi'', role = User, createdAt = 0, status = Done\<rparr>
              ''0.4fzyo82mvyr'' 1 ([''a'', ''b'', ''c''], Closed) 0)))
         \<lparr>id_msg = ''assistant-4fzyo82mvyr'', content = ''a'', role = Assistant, createdAt = 1,
           status = Streaming\<rparr>
         (Suc 0) (\<lambda>t. Suc (Suc 0)))
     = Inr [\<lparr>messageId = ''assistant-4fzyo82mvyr'', status_c = Streaming, text_c = ''b''\<rparr>,
            \<lparr>messageId = ''assistant-4fzyo82mvyr'', status_c = Done, text_c = []\<rparr>]
   \<and> consumeStream ([''a'', ''b'', ''c''], Closed)
         \<lparr>id_msg = ''assistant-4fzyo82mvyr'', content = [], role = Assistant, createdAt = 1,
           status = Streaming\<rparr>
     = \<lparr>id_msg = ''assistant-4fzyo82mvyr'', content = ''a b c'', role = Assistant, createdAt = 1,
         status = Done\<rparr>"
  by (simp add: generateId_def run_def sendMessage_def tee_def relayStep_def relayAbort_def
        resumeMessage_def startWordCount_def wordsOf_def yieldWords.simps chunksOf_def
        persistSteps_def persistStep_def appendWord_def)

section \<open>A failing source\<close>

text \<open>Claim C5, as stated: a failure of the chunk source reaches the client of sendMessage
  as a terminal chunk with status \<^verbatim>\<open>error\<close>, never as a thrown fault. The generator
  of sendMessage has no such chunk: on a branch that fails after one chunk it yields that
  chunk and throws; and in a run of sendMessage on a source that fails after \<^verbatim>\<open>a b\<close>,
  with a client that has read \<^verbatim>\<open>a\<close> by then, the consumer records \<^verbatim>\<open>a b\<close> and
  \<^verbatim>\<open>error\<close>, and the generator yields \<^verbatim>\<open>a\<close> and throws.\<close>

theorem live_relay_throws_counterexample:
  "convertReadableStreamToAsyncIterable ([''a''], Errored) ''assistant-4fzyo82mvyr''
     = ([\<lparr>messageId = ''assistant-4fzyo82mvyr'', status_c = Streaming, text_c = ''a''\<rparr>], Threw)
   \<and> run [Pull, Consume 1, Consume 1, Consume 1, Pull, Pull]
        (sendMessage [] \<lparr>id_msg = ''u1'', content = ''hi'', role = User, createdAt = 0, status = Done\<rparr>
           ''0.4fzyo82mvyr'' 1 ([''a'', ''b''], Errored) 1)
     = ([\<lparr>msg = \<lparr>id_msg = ''u1'', content = ''hi'', role = User, createdAt = 0, status = Done\<rparr>,
          writer = None\<rparr>,
         \<lparr>msg = \<lparr>id_msg = ''assistant-4fzyo82mvyr'', content = ''a b'', role = Assistant,
                  createdAt = 1, status = Error\<rparr>,
          writer = None\<rparr>],
        \<lparr>source = ([], Errored), target = ''assistant-4fzyo82mvyr'',
         yielded = [\<lparr>messageId = ''assistant-4fzyo82mvyr'', status_c = Streaming, text_c = ''a''\<rparr>],
         gen = Finished Threw\<rparr>)"
  by (simp add: generateId_def run_def sendMessage_def tee_def relayStep_def
        persistStep_def appendWord_def)

text \<open>Claim C5, amended. When the chunk source fails, and with it the background consumer,
  whose only failure is the rejected read, the failure is recorded as status \<^verbatim>\<open>error\<close>
  of the message, by consumeStream and so in every run of sendMessage. Every pollMessage
  call surfaces it as one terminal chunk with status \<^verbatim>\<open>error\<close> and ends normally: at
  once when the failure is already recorded; and when the consumer is still running, the
  call ends in no other way than with that chunk, and it does so as soon as the schedule has
  given the consumer its turns, one more than there are chunks left, within the polls of
  the call. The generator of sendMessage has no such chunk: it yields the chunks it has
  read before the failure and then throws.\<close>

theorem generation_failure_surfacing:
  "status (consumeStream (chunks, Errored) message) = Error
   \<and> (length chunks < count_list evs (Consume (Suc (length messages))) \<longrightarrow>
        status (msg (fst (run evs (sendMessage messages input rnd36 now (chunks, Errored) read2))
                       ! Suc (length messages))) = Error)
   \<and> convertReadableStreamToAsyncIterable (chunks, Errored) mid =
       (map (\<lambda>w. \<lparr>messageId = mid, status_c = Streaming, text_c = w\<rparr>) chunks, Threw)
   \<and> (length (take read2 chunks) < n \<longrightarrow>
        (relayStep ^^ n) (snd (sendMessage messages input rnd36 now (chunks, Errored) read2)) =
          \<lparr>source = ([], Errored), target = generateId (Some ''assistant'') rnd36,
           yielded = map (\<lambda>w. \<lparr>messageId = generateId (Some ''assistant'') rnd36,
                                 status_c = Streaming, text_c = w\<rparr>) (take read2 chunks),
           gen = Finished Threw\<rparr>)
   \<and> (status (msg p) = Error \<and> writer p = None \<longrightarrow>
        snd (pollMessage (Suc fuel) sched t p lc)
          = Some \<lparr>messageId = id_msg (msg p), status_c = Error, text_c = []\<rparr>)
   \<and> (status (msg p) = Streaming \<and> writer p = Some (chunks, Errored) \<longrightarrow>
        snd (pollMessage fuel sched t p lc) = None
        \<or> snd (pollMessage fuel sched t p lc)
          = Some \<lparr>messageId = id_msg (msg p), status_c = Error, text_c = []\<rparr>)
   \<and> (status (msg p) = Streaming \<and> writer p = Some (chunks, Errored)
        \<and> k < fuel \<and> length chunks < turns sched t k \<longrightarrow>
        snd (pollMessage fuel sched t p lc)
          = Some \<lparr>messageId = id_msg (msg p), status_c = Error, text_c = []\<rparr>)"
proof -
  let ?err = "\<lparr>messageId = id_msg (msg p), status_c = Error, text_c = []\<rparr>"
  have stored: "status (msg (fst (run evs (sendMessage messages input rnd36 now (chunks, Errored) read2))
                       ! Suc (length messages))) = Error"
    if "length chunks < count_list evs (Consume (Suc (length messages)))"
    using sendMessage_run_finished [OF that, of input rnd36 now Errored read2]
    by (simp add: status_consumeStream)
  have relay: "(relayStep ^^ n) (snd (sendMessage messages input rnd36 now (chunks, Errored) read2)) =
          \<lparr>source = ([], Errored), target = generateId (Some ''assistant'') rnd36,
           yielded = map (\<lambda>w. \<lparr>messageId = generateId (Some ''assistant'') rnd36,
                                 status_c = Streaming, text_c = w\<rparr>) (take read2 chunks),
           gen = Finished Threw\<rparr>" if "length (take read2 chunks) < n"
    using sendMessage_relay_complete [where stream = "(chunks, Errored)"
        and chunks = "take read2 chunks" and e = Errored and n = n and ?read2.0 = read2,
        OF tee_Errored that, of messages input rnd36 now]
    by (simp add: convert_Errored)
  have settled: "snd (pollMessage (Suc fuel) sched t p lc) = Some ?err"
    if "status (msg p) = Error" "writer p = None"
    using that by (subst pollMessage_settled) simp_all
  have safe: "snd (pollMessage fuel sched t p lc) = None \<or> snd (pollMessage fuel sched t p lc) = Some ?err"
    if h: "status (msg p) = Streaming" "writer p = Some (chunks, Errored)"
  proof (cases "snd (pollMessage fuel sched t p lc)")
    case None
    then show ?thesis by simp
  next
    case (Some c)
    have "c = ?err" using h Some by (intro pollMessage_failing [where fuel = fuel and sched = sched and t = t and lc = lc]) simp_all
    with Some show ?thesis by simp
  qed
  have live: "snd (pollMessage fuel sched t p lc) = Some ?err"
    if h: "status (msg p) = Streaming" "writer p = Some (chunks, Errored)"
          "k < fuel" "length chunks < turns sched t k"
  proof -
    have "snd (pollMessage fuel sched t p lc) \<noteq> None"
      using h by (intro pollMessage_terminates [where k = k]) simp_all
    with safe [OF h(1,2)] show ?thesis by simp
  qed
  show ?thesis
    using stored relay settled safe live
    by (simp add: status_consumeStream convert_Errored)
qed

theorem generation_failure_surfacing_witness:
  "status \<lparr>id_msg = ''assistant-1'', content = ''a'', role = Assistant, createdAt = 0, status = Streaming\<rparr> = Streaming
   \<and> (4::nat) < 5
   \<and> length [''b''] < turns (\<lambda>t. if t = 1 \<or> t = 3 then 1 else 0) 0 4
   \<and> pollMessage 5 (\<lambda>t. if t = 1 \<or> t = 3 then 1 else 0) 0
        \<lparr>msg = \<lparr>id_msg = ''assistant-1'', content = ''a'', role = Assistant, createdAt = 0,
                 status = Streaming\<rparr>,
          writer = Some ([''b''], Errored)\<rparr> 1
       = ([(1, \<lparr>messageId = ''assistant-1'', status_c = Streaming, text_c = ''b''\<rparr>)],
          Some \<lparr>messageId = ''assistant-1'', status_c = Error, text_c = []\<rparr>)
   \<and> status (consumeStream ([''b''], Errored)
         \<lparr>id_msg = ''assistant-1'', content = ''a'', role = Assistant, createdAt = 0, status = Streaming\<rparr>)
       = Error
   \<and> length (take 1 [''a'', ''b'']) < 3
   \<and> (relayStep ^^ 3) (snd (sendMessage []
          \<lparr>id_msg = ''u1'', content = ''hi'', role = User, createdAt = 0, status = Done\<rparr>
          ''0.4fzyo82mvyr'' 1 ([''a'', ''b''], Errored) 1))
       = \<lparr>source = ([], Errored), target = ''assistant-4fzyo82mvyr'',
          yielded = [\<lparr>messageId = ''assistant-4fzyo82mvyr'', status_c = Streaming, text_c = ''a''\<rparr>],
          gen = Finished Threw\<rparr>
   \<and> length [''a'', ''b''] < count_list [Pull, Consume 1, Consume 1, Consume 1, Pull] (Consume (Suc (length [])))
   \<and> status (msg (fst (run [Pull, Consume 1, Consume 1, Consume 1, Pull]
         (sendMessage []
            \<lparr>id_msg = ''u1'', content = ''hi'', role = User, createdAt = 0, status = Done\<rparr>
            ''0.4fzyo82mvyr'' 1 ([''a'', ''b''], Errored) 1)) ! Suc (length []))) = Error"
  using generation_failure_surfacing [where chunks = "[''b'']"
      and message = "\<lparr>id_msg = ''assistant-1'', content = ''a'', role = Assistant, createdAt = 0, status = Streaming\<rparr>"
      and p = "\<lparr>msg = \<lparr>id_msg = ''assistant-1'', content = ''a'', role = Assistant, createdAt = 0,
                 status = Streaming\<rparr>,
        writer = Some ([''b''], Errored)\<rparr>"
      and fuel = 5 and sched = "\<lambda>t. if t = 1 \<or> t = 3 then 1 else 0" and t = 0 and lc = 1 and k = 4]
    generation_failure_surfacing [where chunks = "[''a'', ''b'']" and ?read2.0 = 1 and n = 3
      and messages = "[]"
      and input = "\<lparr>id_msg = ''u1'', content = ''hi'', role = User, createdAt = 0, status = Done\<rparr>"
      and ?rnd36.0 = "''0.4fzyo82mvyr''" and now = 1
      and evs = "[Pull, Consume 1, Consume 1, Consume 1, Pull]"]
  by (simp add: eval_nat_numeral wordsOf_def yieldWords.simps persistSteps_def persistStep_def
        appendWord_def generateId_def)

end
